theory Spec2Isabelle
  imports Complex_Main
begin

section \<open>The glass cutting optimizer of \<^verbatim>\<open>main.py\<close>\<close>

text \<open>
  Lengths are whole millimetres and are modelled as \<^typ>\<open>int\<close>: the stock catalogue and the
  cutting lists hold integral values, which Python's numbers add, subtract, multiply and
  compare exactly. The one quotient of the program, the efficiency of a sheet, is modelled
  as a rational. Objects that the source mutates in place are passed and returned
  explicitly. Every \<^verbatim>\<open>raise\<close> of the source is an \<open>Inl\<close> result, and the one loop whose
  termination depends on the input, the \<^verbatim>\<open>while unplaced_rectangles\<close> loop, returns
  \<open>None\<close> when it runs forever.
\<close>

datatype error = ValueError | IndexError | ZeroDivisionError | TypeError

subsection \<open>\<^verbatim>\<open>StockSheet\<close> and \<^verbatim>\<open>GlassInventory\<close>\<close>

record StockSheet =
  thickness_mm :: int
  width_mm :: int
  height_mm :: int

text \<open>The dataclass constructor followed by \<^verbatim>\<open>__post_init__\<close>.\<close>

definition new_StockSheet :: "int \<Rightarrow> int \<Rightarrow> int \<Rightarrow> error + StockSheet" where
  "new_StockSheet t w h =
     (if t \<le> 0 \<or> w \<le> 0 \<or> h \<le> 0 then Inl ValueError
      else Inr \<lparr>thickness_mm = t, width_mm = w, height_mm = h\<rparr>)"

type_synonym GlassInventory = "string \<rightharpoonup> StockSheet"

text \<open>\<^verbatim>\<open>GlassInventory.__init__\<close>: the six catalogue entries, all of which pass the check
  of \<^verbatim>\<open>__post_init__\<close>.\<close>

definition GlassInventory :: GlassInventory where
  "GlassInventory =
     [''CL3'' \<mapsto> \<lparr>thickness_mm = 3, width_mm = 2440, height_mm = 1830\<rparr>,
      ''CL4'' \<mapsto> \<lparr>thickness_mm = 4, width_mm = 2440, height_mm = 1830\<rparr>,
      ''CL6'' \<mapsto> \<lparr>thickness_mm = 6, width_mm = 3300, height_mm = 2600\<rparr>,
      ''CL10'' \<mapsto> \<lparr>thickness_mm = 10, width_mm = 3600, height_mm = 2600\<rparr>,
      ''HN6'' \<mapsto> \<lparr>thickness_mm = 6, width_mm = 3300, height_mm = 2600\<rparr>,
      ''FIL6'' \<mapsto> \<lparr>thickness_mm = 6, width_mm = 3600, height_mm = 2600\<rparr>]"

definition get_stock_sheet :: "GlassInventory \<Rightarrow> string \<Rightarrow> error + StockSheet" where
  "get_stock_sheet stock_sizes code =
     (case stock_sizes code of None \<Rightarrow> Inl ValueError | Some s \<Rightarrow> Inr s)"

definition add_stock_size ::
  "GlassInventory \<Rightarrow> string \<Rightarrow> int \<Rightarrow> int \<Rightarrow> int \<Rightarrow> error + GlassInventory" where
  "add_stock_size stock_sizes code t w h =
     (case new_StockSheet t w h of
        Inl e \<Rightarrow> Inl e
      | Inr s \<Rightarrow> Inr (stock_sizes(code \<mapsto> s)))"

subsection \<open>\<^verbatim>\<open>Rectangle\<close>\<close>

record Rectangle =
  width :: int
  height :: int
  quantity :: int
  thickness_mm :: "int option"
  rotated :: bool
  position :: "(int \<times> int) option"

definition new_Rectangle :: "int \<Rightarrow> int \<Rightarrow> int \<Rightarrow> int option \<Rightarrow> Rectangle" where
  "new_Rectangle w h q t =
     \<lparr>width = w, height = h, quantity = q, thickness_mm = t,
      rotated = False, position = None\<rparr>"

definition can_rotate :: "Rectangle \<Rightarrow> bool" where
  "can_rotate r = (Rectangle.width r \<noteq> Rectangle.height r)"

definition get_dimensions :: "Rectangle \<Rightarrow> int \<times> int" where
  "get_dimensions r =
     (if rotated r then (Rectangle.height r, Rectangle.width r)
      else (Rectangle.width r, Rectangle.height r))"

subsection \<open>\<^verbatim>\<open>Sheet\<close>\<close>

text \<open>A free space is the tuple \<^verbatim>\<open>(x, y, width, height)\<close>.\<close>

type_synonym space = "int \<times> int \<times> int \<times> int"

record Sheet =
  stock_sheet :: StockSheet
  width :: int
  height :: int
  thickness :: int
  placed_rectangles :: "Rectangle list"
  spaces :: "space list"

definition new_Sheet :: "StockSheet \<Rightarrow> Sheet" where
  "new_Sheet s =
     \<lparr>stock_sheet = s, width = width_mm s, height = height_mm s,
      thickness = StockSheet.thickness_mm s, placed_rectangles = [],
      spaces = [(0, 0, width_mm s, height_mm s)]\<rparr>"

text \<open>
  The local variables of \<^verbatim>\<open>find_best_space\<close>. \<open>min_waste = None\<close> stands for
  \<^verbatim>\<open>float('inf')\<close>, below which every waste lies.
\<close>

record search =
  best_space :: "space option"
  best_space_index :: int
  min_waste :: "int option"
  should_rotate :: bool

definition waste_less :: "int \<Rightarrow> int option \<Rightarrow> bool" where
  "waste_less waste m = (case m of None \<Rightarrow> True | Some v \<Rightarrow> waste < v)"

text \<open>The body of the \<^verbatim>\<open>for\<close> loop: the unrotated test, then the rotated one.\<close>

definition try_space :: "Rectangle \<Rightarrow> int \<Rightarrow> space \<Rightarrow> search \<Rightarrow> search" where
  "try_space rectangle space_index sp st =
     (case sp of (x, y, space_width, space_height) \<Rightarrow>
        let st1 =
              (if Rectangle.width rectangle \<le> space_width
                  \<and> Rectangle.height rectangle \<le> space_height
               then
                 (let waste = space_width * space_height
                        - Rectangle.width rectangle * Rectangle.height rectangle
                  in if waste_less waste (min_waste st)
                     then \<lparr>best_space = Some sp, best_space_index = space_index,
                           min_waste = Some waste, should_rotate = False\<rparr>
                     else st)
               else st);
            st2 =
              (if can_rotate rectangle
                  \<and> Rectangle.height rectangle \<le> space_width
                  \<and> Rectangle.width rectangle \<le> space_height
               then
                 (let waste = space_width * space_height
                        - Rectangle.width rectangle * Rectangle.height rectangle
                  in if waste_less waste (min_waste st1)
                     then \<lparr>best_space = Some sp, best_space_index = space_index,
                           min_waste = Some waste, should_rotate = True\<rparr>
                     else st1)
               else st1)
        in st2)"

fun find_loop :: "Rectangle \<Rightarrow> int \<Rightarrow> space list \<Rightarrow> search \<Rightarrow> search" where
  "find_loop rectangle space_index [] st = st"
| "find_loop rectangle space_index (sp # sps) st =
     find_loop rectangle (space_index + 1) sps (try_space rectangle space_index sp st)"

definition find_best_space :: "Sheet \<Rightarrow> Rectangle \<Rightarrow> space option \<times> int \<times> bool" where
  "find_best_space sheet rectangle =
     (let st = find_loop rectangle 0 (spaces sheet)
                 \<lparr>best_space = None, best_space_index = - 1,
                  min_waste = None, should_rotate = False\<rparr>
      in (best_space st, best_space_index st, should_rotate st))"

text \<open>
  \<^verbatim>\<open>list.pop(i)\<close>, keeping the list that remains: a negative index counts from the end,
  and an index out of range raises \<^verbatim>\<open>IndexError\<close>.
\<close>

definition remove_nth :: "nat \<Rightarrow> 'a list \<Rightarrow> 'a list" where
  "remove_nth i xs = take i xs @ drop (Suc i) xs"

definition pop :: "'a list \<Rightarrow> int \<Rightarrow> error + 'a list" where
  "pop xs i =
     (let n = int (length xs); j = (if i < 0 then i + n else i)
      in if 0 \<le> j \<and> j < n then Inr (remove_nth (nat j) xs) else Inl IndexError)"

text \<open>
  \<^verbatim>\<open>place_rectangle\<close> returns the updated sheet; the rectangle it appends carries the
  position it was given. (The source returns the constant \<^verbatim>\<open>True\<close>.)
\<close>

definition place_rectangle :: "Sheet \<Rightarrow> Rectangle \<Rightarrow> space \<Rightarrow> int \<Rightarrow> error + Sheet" where
  "place_rectangle sheet rectangle sp space_index =
     (case sp of (x, y, space_width, space_height) \<Rightarrow>
       (case get_dimensions rectangle of (rect_width, rect_height) \<Rightarrow>
         (case pop (spaces sheet) space_index of
            Inl e \<Rightarrow> Inl e
          | Inr sps \<Rightarrow>
              (let sps1 = (if space_width > rect_width
                           then sps @ [(x + rect_width, y, space_width - rect_width, space_height)]
                           else sps);
                   sps2 = (if space_height > rect_height
                           then sps1 @ [(x, y + rect_height, rect_width, space_height - rect_height)]
                           else sps1)
               in Inr (sheet\<lparr>placed_rectangles :=
                                placed_rectangles sheet @ [rectangle\<lparr>position := Some (x, y)\<rparr>],
                              spaces := sps2\<rparr>)))))"

subsection \<open>\<^verbatim>\<open>GlassCuttingOptimizer.optimize_cutting\<close>\<close>

text \<open>A demand line is the tuple \<^verbatim>\<open>(width, height, quantity)\<close>; \<^verbatim>\<open>range(quantity)\<close> is
  empty for a quantity below one.\<close>

type_synonym piece = "int \<times> int \<times> int"

definition make_rectangles :: "piece list \<Rightarrow> int \<Rightarrow> Rectangle list" where
  "make_rectangles pieces t =
     concat (map (\<lambda>(w, h, q). replicate (nat q) (new_Rectangle w h 1 (Some t))) pieces)"

text \<open>\<^verbatim>\<open>sort(key=area, reverse=True)\<close> is stable: pieces of equal area keep their order.\<close>

definition sort_by_area :: "Rectangle list \<Rightarrow> Rectangle list" where
  "sort_by_area rs = sort_key (\<lambda>r. - (Rectangle.width r * Rectangle.height r)) rs"

text \<open>
  The innermost loop, \<^verbatim>\<open>while i < len(unplaced_rectangles)\<close>. Its guard keeps
  \<^verbatim>\<open>unplaced_rectangles[i]\<close> and \<^verbatim>\<open>unplaced_rectangles.pop(i)\<close> in range.
\<close>

function pass_loop ::
  "Sheet \<Rightarrow> Rectangle list \<Rightarrow> nat \<Rightarrow> bool \<Rightarrow> error + (Sheet \<times> Rectangle list \<times> bool)" where
  "pass_loop current_sheet unplaced i placed_any =
     (if i < length unplaced then
        (let rect = unplaced ! i in
         case find_best_space current_sheet rect of
           (None, space_index, rot) \<Rightarrow> pass_loop current_sheet unplaced (i + 1) placed_any
         | (Some sp, space_index, rot) \<Rightarrow>
             (case place_rectangle current_sheet (rect\<lparr>rotated := rot\<rparr>) sp space_index of
                Inl e \<Rightarrow> Inl e
              | Inr sheet' \<Rightarrow> pass_loop sheet' (remove_nth i unplaced) i True))
      else Inr (current_sheet, unplaced, placed_any))"
  by pat_completeness auto
termination
  by (relation "measure (\<lambda>(s, u, i, b). length u - i)") (auto simp: remove_nth_def)

text \<open>The loop \<^verbatim>\<open>while placed_any\<close>: passes over the pool until one places nothing.\<close>

function sheet_loop :: "Sheet \<Rightarrow> Rectangle list \<Rightarrow> error + (Sheet \<times> Rectangle list)" where
  "sheet_loop current_sheet unplaced =
     (case pass_loop current_sheet unplaced 0 False of
        Inl e \<Rightarrow> Inl e
      | Inr (sheet', unplaced', placed_any) \<Rightarrow>
          if placed_any then sheet_loop sheet' unplaced' else Inr (sheet', unplaced'))"
  by pat_completeness auto
termination
proof (relation "measure (\<lambda>(s, u). length u)")
  show "wf (measure (\<lambda>(s, u). length u))" by simp
next
  fix current_sheet :: Sheet and unplaced :: "Rectangle list" and x2 sheet' y unplaced' placed_any
  assume run: "pass_loop current_sheet unplaced 0 False = Inr x2"
    and x2: "(sheet', y) = x2" "(unplaced', placed_any) = y" and any: placed_any
  have shrink: "pass_loop s u i b = Inr (s', u', b') \<Longrightarrow>
      length u' \<le> length u \<and> (b' \<and> \<not> b \<longrightarrow> length u' < length u)" for s u i b s' u' b'
  proof (induction s u i b rule: pass_loop.induct)
    case (1 s u i b)
    show ?case
    proof (cases "i < length u")
      case False
      with "1.prems" show ?thesis by simp
    next
      case True
      obtain bs si rot where f: "find_best_space s (u ! i) = (bs, si, rot)"
        by (cases "find_best_space s (u ! i)") auto
      show ?thesis
      proof (cases bs)
        case None
        with "1.prems" True f have "pass_loop s u (i + 1) b = Inr (s', u', b')" by simp
        with "1.IH"(1)[OF True refl] f None show ?thesis by simp
      next
        case (Some sp)
        with "1.prems" True f obtain s1 where
          p: "place_rectangle s ((u ! i)\<lparr>rotated := rot\<rparr>) sp si = Inr s1"
          and r: "pass_loop s1 (remove_nth i u) i True = Inr (s', u', b')"
          by (auto split: sum.splits)
        have "length u' \<le> length (remove_nth i u)"
          using "1.IH"(2)[OF True refl] f Some p r by simp
        moreover have "length (remove_nth i u) < length u"
          using True by (simp add: remove_nth_def)
        ultimately show ?thesis by simp
      qed
    qed
  qed
  from run x2 have "pass_loop current_sheet unplaced 0 False = Inr (sheet', unplaced', placed_any)"
    by simp
  from shrink[OF this] any
  show "((sheet', unplaced'), (current_sheet, unplaced)) \<in> measure (\<lambda>(s, u). length u)"
    by simp
qed

declare pass_loop.simps [simp del] sheet_loop.simps [simp del]

text \<open>
  The outer loop, \<^verbatim>\<open>while unplaced_rectangles\<close>. The source appends the fresh sheet to
  \<^verbatim>\<open>sheets\<close> and then fills that same object; here the sheet is appended once filled.
\<close>

partial_function (option) outer_loop ::
  "StockSheet \<Rightarrow> Sheet list \<Rightarrow> Rectangle list \<Rightarrow> (error + Sheet list) option" where
  "outer_loop stock sheets unplaced =
     (if unplaced \<noteq> [] then
        (case sheet_loop (new_Sheet stock) unplaced of
           Inl e \<Rightarrow> Some (Inl e)
         | Inr (current_sheet, unplaced') \<Rightarrow>
             outer_loop stock (sheets @ [current_sheet]) unplaced')
      else Some (Inr sheets))"

declare outer_loop.simps [code]

definition optimize_cutting ::
  "GlassInventory \<Rightarrow> string \<Rightarrow> piece list \<Rightarrow> (error + Sheet list) option" where
  "optimize_cutting inventory glass_code pieces =
     (case get_stock_sheet inventory glass_code of
        Inl e \<Rightarrow> Some (Inl e)
      | Inr stock \<Rightarrow>
          outer_loop stock []
            (sort_by_area (make_rectangles pieces (StockSheet.thickness_mm stock))))"

subsection \<open>The report of a sheet\<close>








section \<open>Vocabulary of the properties\<close>

text \<open>The two fit tests of the search, the waste of a space, and what it is for a piece
  to fit a space in an orientation the search may use.\<close>

definition fits_unrotated :: "Rectangle \<Rightarrow> space \<Rightarrow> bool" where
  "fits_unrotated r sp =
     (case sp of (x, y, w, h) \<Rightarrow> Rectangle.width r \<le> w \<and> Rectangle.height r \<le> h)"

definition fits_rotated :: "Rectangle \<Rightarrow> space \<Rightarrow> bool" where
  "fits_rotated r sp =
     (case sp of (x, y, w, h) \<Rightarrow> Rectangle.height r \<le> w \<and> Rectangle.width r \<le> h)"

definition fits :: "Rectangle \<Rightarrow> space \<Rightarrow> bool" where
  "fits r sp = (fits_unrotated r sp \<or> can_rotate r \<and> fits_rotated r sp)"

definition waste_of :: "Rectangle \<Rightarrow> space \<Rightarrow> int" where
  "waste_of r sp =
     (case sp of (x, y, w, h) \<Rightarrow> w * h - Rectangle.width r * Rectangle.height r)"

text \<open>
  Geometry. A space \<open>(x, y, w, h)\<close> covers the unit cells \<open>(a, b)\<close> with
  \<open>x \<le> a < x + w\<close> and \<open>y \<le> b < y + h\<close>. Two spaces overlap when their interiors meet.
  The footprint of a placed piece is the space it covers: its position and its dimensions
  after rotation.
\<close>

definition cells :: "space \<Rightarrow> (int \<times> int) set" where
  "cells sp = (case sp of (x, y, w, h) \<Rightarrow> {(a, b). x \<le> a \<and> a < x + w \<and> y \<le> b \<and> b < y + h})"

definition overlaps :: "space \<Rightarrow> space \<Rightarrow> bool" where
  "overlaps s1 s2 =
     (case s1 of (x1, y1, w1, h1) \<Rightarrow>
       (case s2 of (x2, y2, w2, h2) \<Rightarrow>
          x1 < x2 + w2 \<and> x2 < x1 + w1 \<and> y1 < y2 + h2 \<and> y2 < y1 + h1))"

definition inside :: "space \<Rightarrow> space \<Rightarrow> bool" where
  "inside s1 s2 =
     (case s1 of (x1, y1, w1, h1) \<Rightarrow>
       (case s2 of (x2, y2, w2, h2) \<Rightarrow>
          x2 \<le> x1 \<and> y2 \<le> y1 \<and> x1 + w1 \<le> x2 + w2 \<and> y1 + h1 \<le> y2 + h2))"

definition positive :: "space \<Rightarrow> bool" where
  "positive sp = (case sp of (x, y, w, h) \<Rightarrow> 0 < w \<and> 0 < h)"

definition area :: "space \<Rightarrow> int" where
  "area sp = (case sp of (x, y, w, h) \<Rightarrow> w * h)"

definition footprint :: "Rectangle \<Rightarrow> space option" where
  "footprint r =
     (case position r of
        None \<Rightarrow> None
      | Some (x, y) \<Rightarrow> (case get_dimensions r of (w, h) \<Rightarrow> Some (x, y, w, h)))"

fun footprints :: "Rectangle list \<Rightarrow> space list" where
  "footprints [] = []"
| "footprints (r # rs) =
     (case footprint r of None \<Rightarrow> footprints rs | Some fp \<Rightarrow> fp # footprints rs)"

definition whole_sheet :: "Sheet \<Rightarrow> space" where
  "whole_sheet s = (0, 0, Sheet.width s, Sheet.height s)"

definition boxes :: "Sheet \<Rightarrow> space list" where
  "boxes s = spaces s @ footprints (placed_rectangles s)"

text \<open>
  The states a sheet of the given stock passes through: it is created with
  \<^verbatim>\<open>Sheet(stock_sheet)\<close>, and the packing loop changes it only by placing a piece where
  \<^verbatim>\<open>find_best_space\<close> found room for it, with the rotation flag the search returned.
\<close>

inductive reachable :: "StockSheet \<Rightarrow> Sheet \<Rightarrow> bool" for stock :: StockSheet where
  fresh: "reachable stock (new_Sheet stock)"
| place: "reachable stock s \<Longrightarrow> 0 < Rectangle.width r \<Longrightarrow> 0 < Rectangle.height r \<Longrightarrow>
          find_best_space s r = (Some sp, i, rot) \<Longrightarrow>
          place_rectangle s (r\<lparr>rotated := rot\<rparr>) sp i = Inr s' \<Longrightarrow>
          reachable stock s'"

text \<open>
  The invariant of a sheet: its dimensions are those of the stock; every placed piece has
  a position, positive dimensions and is turned only if it is not square; the free spaces
  and the footprints together are distinct, positive, inside the sheet and pairwise not
  overlapping; they cover the sheet; and their areas add up to the area of the sheet.
\<close>

definition sheet_inv :: "StockSheet \<Rightarrow> Sheet \<Rightarrow> bool" where
  "sheet_inv stock s \<longleftrightarrow>
     Sheet.width s = width_mm stock \<and> Sheet.height s = height_mm stock
   \<and> (\<forall>r\<in>set (placed_rectangles s).
         position r \<noteq> None \<and> 0 < Rectangle.width r \<and> 0 < Rectangle.height r
         \<and> (rotated r \<longrightarrow> Rectangle.width r \<noteq> Rectangle.height r))
   \<and> distinct (boxes s)
   \<and> (\<forall>a\<in>set (boxes s). positive a \<and> inside a (whole_sheet s))
   \<and> (\<forall>a\<in>set (boxes s). \<forall>b\<in>set (boxes s). a \<noteq> b \<longrightarrow> \<not> overlaps a b)
   \<and> \<Union> (cells ` set (boxes s)) = cells (whole_sheet s)
   \<and> sum_list (map area (boxes s)) = area (whole_sheet s)"

text \<open>A piece fits the stock sheet in at least one orientation.\<close>

definition fittable :: "StockSheet \<Rightarrow> Rectangle \<Rightarrow> bool" where
  "fittable stock r =
     (Rectangle.width r \<le> width_mm stock \<and> Rectangle.height r \<le> height_mm stock
      \<or> Rectangle.height r \<le> width_mm stock \<and> Rectangle.width r \<le> height_mm stock)"

text \<open>
  What the passes over the pool of unplaced pieces keep, from a sheet \<open>s\<close> and a pool
  \<open>u\<close> to a sheet \<open>s'\<close> and a pool \<open>u'\<close>: the sheet stays reachable, each piece is on
  the sheet or in the pool, the pool only loses pieces, and a piece that does not fit the
  stock sheet stays in the pool.
\<close>

definition pass_post ::
  "StockSheet \<Rightarrow> Sheet \<Rightarrow> Rectangle list \<Rightarrow> Sheet \<Rightarrow> Rectangle list \<Rightarrow> bool" where
  "pass_post stock s u s' u' \<longleftrightarrow>
     reachable stock s'
   \<and> length (placed_rectangles s') + length u' = length (placed_rectangles s) + length u
   \<and> set u' \<subseteq> set u \<and> length u' \<le> length u
   \<and> (\<forall>r\<in>set u. \<not> fittable stock r \<longrightarrow> r \<in> set u')"

text \<open>
  A well-formed demand line has positive dimensions and a positive quantity; it fits the
  stock sheet when it does so in at least one orientation. The pieces asked for are the sum
  of the quantities, the pieces delivered are those placed on the returned sheets.
\<close>

definition valid_piece :: "piece \<Rightarrow> bool" where
  "valid_piece p = (case p of (w, h, q) \<Rightarrow> 0 < w \<and> 0 < h \<and> 0 < q)"

definition piece_fits :: "StockSheet \<Rightarrow> piece \<Rightarrow> bool" where
  "piece_fits stock p =
     (case p of (w, h, q) \<Rightarrow>
        w \<le> width_mm stock \<and> h \<le> height_mm stock
        \<or> h \<le> width_mm stock \<and> w \<le> height_mm stock)"

definition total_quantity :: "piece list \<Rightarrow> int" where
  "total_quantity pieces = sum_list (map (\<lambda>(w, h, q). q) pieces)"

definition total_placed :: "Sheet list \<Rightarrow> nat" where
  "total_placed sheets = sum_list (map (\<lambda>s. length (placed_rectangles s)) sheets)"



section \<open>A worked state\<close>

text \<open>
  The 3300 by 2600 sheet of the catalogue after a piece of 2000 by 1300 was placed in its
  corner, and a piece of 1300 by 2000 still to be placed: it fits the space on the right as
  it is, and the space below exactly once turned.
\<close>

definition CL6 :: StockSheet where
  "CL6 = \<lparr>StockSheet.thickness_mm = 6, width_mm = 3300, height_mm = 2600\<rparr>"

definition demo_sheet :: Sheet where
  "demo_sheet =
     (new_Sheet CL6)
       \<lparr>placed_rectangles := [(new_Rectangle 2000 1300 1 (Some 6))\<lparr>position := Some (0, 0)\<rparr>],
        spaces := [(2000, 0, 1300, 2600), (0, 1300, 2000, 1300)]\<rparr>"

definition demo_piece :: Rectangle where
  "demo_piece = new_Rectangle 1300 2000 1 (Some 6)"

text \<open>
  A demand of three pieces on that stock and the two sheets the optimizer returns for it:
  the second piece is turned to fill the first sheet, the square goes to a second sheet.
\<close>

definition demo_demand :: "piece list" where
  "demo_demand = [(2600, 1300, 1), (2000, 2600, 1), (500, 500, 1)]"

definition demo_result :: "Sheet list" where
  "demo_result =
     [\<lparr>stock_sheet = CL6, width = 3300, height = 2600, thickness = 6,
       placed_rectangles =
         [\<lparr>Rectangle.width = 2000, height = 2600, quantity = 1, thickness_mm = Some 6,
           rotated = False, position = Some (0, 0)\<rparr>,
          \<lparr>Rectangle.width = 2600, height = 1300, quantity = 1, thickness_mm = Some 6,
           rotated = True, position = Some (2000, 0)\<rparr>],
       spaces = []\<rparr>,
      \<lparr>stock_sheet = CL6, width = 3300, height = 2600, thickness = 6,
       placed_rectangles =
         [\<lparr>Rectangle.width = 500, height = 500, quantity = 1, thickness_mm = Some 6,
           rotated = False, position = Some (0, 0)\<rparr>],
       spaces = [(500, 0, 2800, 2600), (0, 500, 500, 2100)]\<rparr>]"

section \<open>Stock sheets\<close>

text \<open>Every stock sheet that passes \<^verbatim>\<open>__post_init__\<close> has positive dimensions, and so has
  every entry of the catalogue.\<close>

lemma new_StockSheet_positive:
  "new_StockSheet t w h = Inr s \<Longrightarrow> 0 < width_mm s \<and> 0 < height_mm s"
  by (auto simp: new_StockSheet_def split: if_splits)

lemma GlassInventory_positive:
  "get_stock_sheet GlassInventory code = Inr s \<Longrightarrow> 0 < width_mm s \<and> 0 < height_mm s"
  by (auto simp: get_stock_sheet_def GlassInventory_def split: if_splits)

section \<open>The best-fit search\<close>

lemma try_space_eq:
  "try_space r i sp st =
     (if fits r sp \<and> waste_less (waste_of r sp) (min_waste st)
      then \<lparr>best_space = Some sp, best_space_index = i,
            min_waste = Some (waste_of r sp), should_rotate = \<not> fits_unrotated r sp\<rparr>
      else st)"
  by (cases sp)
     (auto simp: try_space_def fits_def fits_unrotated_def fits_rotated_def waste_of_def
                 waste_less_def Let_def)

lemma find_loop_char:
  "(find_loop r off sps st = st
      \<and> (\<forall>j<length sps. \<not> (fits r (sps ! j) \<and> waste_less (waste_of r (sps ! j)) (min_waste st))))
   \<or> (\<exists>k<length sps.
        find_loop r off sps st =
          \<lparr>best_space = Some (sps ! k), best_space_index = off + int k,
           min_waste = Some (waste_of r (sps ! k)),
           should_rotate = \<not> fits_unrotated r (sps ! k)\<rparr>
        \<and> fits r (sps ! k)
        \<and> waste_less (waste_of r (sps ! k)) (min_waste st)
        \<and> (\<forall>j<length sps. fits r (sps ! j) \<longrightarrow> waste_of r (sps ! k) \<le> waste_of r (sps ! j))
        \<and> (\<forall>j<k. fits r (sps ! j) \<longrightarrow> waste_of r (sps ! k) < waste_of r (sps ! j)))"
proof (induction sps arbitrary: off st)
  case Nil
  show ?case by simp
next
  case (Cons sp sps)
  let ?st1 = "try_space r off sp st"
  let ?improved = "fits r sp \<and> waste_less (waste_of r sp) (min_waste st)"
  from Cons.IH[of "off + 1" ?st1]
  consider
    (same) "find_loop r (off + 1) sps ?st1 = ?st1"
      "\<forall>j<length sps. \<not> (fits r (sps ! j) \<and> waste_less (waste_of r (sps ! j)) (min_waste ?st1))"
  | (later) k where "k < length sps"
      "find_loop r (off + 1) sps ?st1 =
         \<lparr>best_space = Some (sps ! k), best_space_index = off + 1 + int k,
          min_waste = Some (waste_of r (sps ! k)),
          should_rotate = \<not> fits_unrotated r (sps ! k)\<rparr>"
      "fits r (sps ! k)"
      "waste_less (waste_of r (sps ! k)) (min_waste ?st1)"
      "\<forall>j<length sps. fits r (sps ! j) \<longrightarrow> waste_of r (sps ! k) \<le> waste_of r (sps ! j)"
      "\<forall>j<k. fits r (sps ! j) \<longrightarrow> waste_of r (sps ! k) < waste_of r (sps ! j)"
    by blast
  then show ?case
  proof cases
    case same
    show ?thesis
    proof (cases ?improved)
      case True
      then have st1: "?st1 = \<lparr>best_space = Some sp, best_space_index = off,
            min_waste = Some (waste_of r sp), should_rotate = \<not> fits_unrotated r sp\<rparr>"
        by (simp add: try_space_eq)
      have "\<forall>j<length sps. fits r (sps ! j) \<longrightarrow> waste_of r sp \<le> waste_of r (sps ! j)"
        using same(2) unfolding st1 by (auto simp: waste_less_def)
      then have "\<forall>j<length (sp # sps). fits r ((sp # sps) ! j)
           \<longrightarrow> waste_of r sp \<le> waste_of r ((sp # sps) ! j)"
        by (auto simp: nth_Cons split: nat.splits)
      with True same(1) st1 have "0 < length (sp # sps) \<and>
        find_loop r off (sp # sps) st =
          \<lparr>best_space = Some ((sp # sps) ! 0), best_space_index = off + int 0,
           min_waste = Some (waste_of r ((sp # sps) ! 0)),
           should_rotate = \<not> fits_unrotated r ((sp # sps) ! 0)\<rparr>
        \<and> fits r ((sp # sps) ! 0)
        \<and> waste_less (waste_of r ((sp # sps) ! 0)) (min_waste st)
        \<and> (\<forall>j<length (sp # sps). fits r ((sp # sps) ! j)
              \<longrightarrow> waste_of r ((sp # sps) ! 0) \<le> waste_of r ((sp # sps) ! j))
        \<and> (\<forall>j<0. fits r ((sp # sps) ! j)
              \<longrightarrow> waste_of r ((sp # sps) ! 0) < waste_of r ((sp # sps) ! j))"
        by simp
      then show ?thesis by blast
    next
      case False
      then have st1: "?st1 = st" by (auto simp: try_space_eq)
      have "\<forall>j<length (sp # sps). \<not> (fits r ((sp # sps) ! j)
            \<and> waste_less (waste_of r ((sp # sps) ! j)) (min_waste st))"
        using same(2) False unfolding st1 by (auto simp: nth_Cons split: nat.splits)
      moreover have "find_loop r off (sp # sps) st = st"
        using same(1) st1 by simp
      ultimately show ?thesis by blast
    qed
  next
    case later
    have wl: "waste_less (waste_of r (sps ! k)) (min_waste st)"
      and first: "fits r sp \<longrightarrow> waste_of r (sps ! k) < waste_of r sp"
    proof -
      show "waste_less (waste_of r (sps ! k)) (min_waste st)"
        using later(4) by (auto simp: try_space_eq waste_less_def split: if_splits option.splits)
      show "fits r sp \<longrightarrow> waste_of r (sps ! k) < waste_of r sp"
        using later(4) by (auto simp: try_space_eq waste_less_def split: if_splits option.splits)
    qed
    have all: "\<forall>j<length (sp # sps). fits r ((sp # sps) ! j)
           \<longrightarrow> waste_of r (sps ! k) \<le> waste_of r ((sp # sps) ! j)"
      using later(5) first by (auto simp: nth_Cons split: nat.splits)
    have before: "\<forall>j<Suc k. fits r ((sp # sps) ! j)
           \<longrightarrow> waste_of r (sps ! k) < waste_of r ((sp # sps) ! j)"
      using later(6) first by (auto simp: nth_Cons split: nat.splits)
    have "Suc k < length (sp # sps) \<and>
        find_loop r off (sp # sps) st =
          \<lparr>best_space = Some ((sp # sps) ! Suc k), best_space_index = off + int (Suc k),
           min_waste = Some (waste_of r ((sp # sps) ! Suc k)),
           should_rotate = \<not> fits_unrotated r ((sp # sps) ! Suc k)\<rparr>
        \<and> fits r ((sp # sps) ! Suc k)
        \<and> waste_less (waste_of r ((sp # sps) ! Suc k)) (min_waste st)
        \<and> (\<forall>j<length (sp # sps). fits r ((sp # sps) ! j)
              \<longrightarrow> waste_of r ((sp # sps) ! Suc k) \<le> waste_of r ((sp # sps) ! j))
        \<and> (\<forall>j<Suc k. fits r ((sp # sps) ! j)
              \<longrightarrow> waste_of r ((sp # sps) ! Suc k) < waste_of r ((sp # sps) ! j))"
      using later(1,2,3) wl all before by simp
    then show ?thesis by blast
  qed
qed

lemma find_best_space_cases:
  "(find_best_space s r = (None, - 1, False)
      \<and> (\<forall>j<length (spaces s). \<not> fits r (spaces s ! j)))
   \<or> (\<exists>k<length (spaces s).
        find_best_space s r = (Some (spaces s ! k), int k, \<not> fits_unrotated r (spaces s ! k))
        \<and> fits r (spaces s ! k)
        \<and> (\<forall>j<length (spaces s). fits r (spaces s ! j)
              \<longrightarrow> waste_of r (spaces s ! k) \<le> waste_of r (spaces s ! j))
        \<and> (\<forall>j<k. fits r (spaces s ! j)
              \<longrightarrow> waste_of r (spaces s ! k) < waste_of r (spaces s ! j)))"
  using find_loop_char[of r 0 "spaces s"
      "\<lparr>best_space = None, best_space_index = - 1, min_waste = None, should_rotate = False\<rparr>"]
  by (auto simp: find_best_space_def Let_def waste_less_def)

lemma find_best_space_Some:
  assumes "find_best_space s r = (Some sp, i, rot)"
  shows "\<exists>k<length (spaces s). sp = spaces s ! k \<and> i = int k
           \<and> rot = (\<not> fits_unrotated r sp) \<and> fits r sp"
  using find_best_space_cases[of s r] assms by auto

lemma find_best_space_None:
  assumes "find_best_space s r = (None, i, rot)"
  shows "i = - 1 \<and> \<not> rot \<and> (\<forall>sp\<in>set (spaces s). \<not> fits r sp)"
proof -
  from find_best_space_cases[of s r] assms
  have "i = - 1" "\<not> rot" and no: "\<forall>j<length (spaces s). \<not> fits r (spaces s ! j)"
    by auto
  from no have "\<forall>sp\<in>set (spaces s). \<not> fits r sp"
    by (metis in_set_conv_nth)
  with \<open>i = - 1\<close> \<open>\<not> rot\<close> show ?thesis by simp
qed

section \<open>One placement\<close>

lemma pop_nat: "k < length xs \<Longrightarrow> pop xs (int k) = Inr (remove_nth k xs)"
  by (simp add: pop_def Let_def)

text \<open>What a placement at the result of the search does to the sheet.\<close>

lemma place_step:
  assumes "find_best_space s r = (Some sp, i, rot)"
  obtains k x y sw sh ew eh where
    "k < length (spaces s)" "sp = spaces s ! k" "sp = (x, y, sw, sh)" "i = int k"
    "(ew, eh) = (if rot then (Rectangle.height r, Rectangle.width r)
                 else (Rectangle.width r, Rectangle.height r))"
    "ew \<le> sw" "eh \<le> sh"
    "rot \<longrightarrow> Rectangle.width r \<noteq> Rectangle.height r"
    "footprint (r\<lparr>rotated := rot, position := Some (x, y)\<rparr>) = Some (x, y, ew, eh)"
    "place_rectangle s (r\<lparr>rotated := rot\<rparr>) sp i =
       Inr (s\<lparr>placed_rectangles :=
                 placed_rectangles s @ [r\<lparr>rotated := rot, position := Some (x, y)\<rparr>],
               spaces := remove_nth k (spaces s)
                 @ (if ew < sw then [(x + ew, y, sw - ew, sh)] else [])
                 @ (if eh < sh then [(x, y + eh, ew, sh - eh)] else [])\<rparr>)"
proof -
  from find_best_space_Some[OF assms] obtain k where
    k: "k < length (spaces s)" "sp = spaces s ! k" "i = int k"
    and rot: "rot = (\<not> fits_unrotated r sp)" and fit: "fits r sp"
    by blast
  obtain x y sw sh where sp: "sp = (x, y, sw, sh)" by (cases sp) auto
  define ew where "ew = (if rot then Rectangle.height r else Rectangle.width r)"
  define eh where "eh = (if rot then Rectangle.width r else Rectangle.height r)"
  have dims: "get_dimensions (r\<lparr>rotated := rot\<rparr>) = (ew, eh)"
    by (simp add: get_dimensions_def ew_def eh_def)
  have e: "(ew, eh) = (if rot then (Rectangle.height r, Rectangle.width r)
                 else (Rectangle.width r, Rectangle.height r))"
    by (simp add: ew_def eh_def)
  have le: "ew \<le> sw \<and> eh \<le> sh \<and> (rot \<longrightarrow> Rectangle.width r \<noteq> Rectangle.height r)"
    using rot fit unfolding sp ew_def eh_def
    by (auto simp: fits_def fits_rotated_def fits_unrotated_def can_rotate_def)
  have fp: "footprint (r\<lparr>rotated := rot, position := Some (x, y)\<rparr>) = Some (x, y, ew, eh)"
    by (simp add: footprint_def get_dimensions_def ew_def eh_def)
  have "place_rectangle s (r\<lparr>rotated := rot\<rparr>) (x, y, sw, sh) (int k) =
       Inr (s\<lparr>placed_rectangles :=
                 placed_rectangles s @ [r\<lparr>rotated := rot, position := Some (x, y)\<rparr>],
               spaces := remove_nth k (spaces s)
                 @ (if ew < sw then [(x + ew, y, sw - ew, sh)] else [])
                 @ (if eh < sh then [(x, y + eh, ew, sh - eh)] else [])\<rparr>)"
    using k(1) by (simp add: place_rectangle_def dims pop_nat Let_def)
  then have pr: "place_rectangle s (r\<lparr>rotated := rot\<rparr>) sp i =
       Inr (s\<lparr>placed_rectangles :=
                 placed_rectangles s @ [r\<lparr>rotated := rot, position := Some (x, y)\<rparr>],
               spaces := remove_nth k (spaces s)
                 @ (if ew < sw then [(x + ew, y, sw - ew, sh)] else [])
                 @ (if eh < sh then [(x, y + eh, ew, sh - eh)] else [])\<rparr>)"
    by (simp only: sp k(3))
  from le show thesis
    by (intro that[of k x y sw sh ew eh] k sp e fp pr) auto
qed

lemma demo_search:
  "find_best_space demo_sheet demo_piece = (Some (0, 1300, 2000, 1300), 1, True)"
  by (simp add: find_best_space_def demo_sheet_def demo_piece_def new_Sheet_def CL6_def
      new_Rectangle_def try_space_def can_rotate_def waste_less_def Let_def)

section \<open>Claims about the search and the split\<close>



text \<open>
  C10. When the search returns the rotation flag set, the piece does not fit the returned
  space unrotated: its width exceeds the width of the space or its height exceeds the
  height of the space.
\<close>

theorem rotation_only_where_unrotated_fails:
  "find_best_space s r = (Some (x, y, sw, sh), i, True) \<Longrightarrow>
     \<not> (Rectangle.width r \<le> sw \<and> Rectangle.height r \<le> sh)"
  using find_best_space_Some[of s r "(x, y, sw, sh)" i True]
  by (auto simp: fits_unrotated_def)

theorem rotation_only_where_unrotated_fails_witness:
  "find_best_space demo_sheet demo_piece = (Some (0, 1300, 2000, 1300), 1, True)
   \<and> \<not> (Rectangle.width demo_piece \<le> 2000 \<and> Rectangle.height demo_piece \<le> 1300)"
  using rotation_only_where_unrotated_fails[of demo_sheet demo_piece 0 1300 2000 1300 1]
    demo_search
  by simp

text \<open>
  C6. Placing a piece with an index inside the free list removes the space at that index
  and appends at most two spaces, in this order: when the footprint is narrower than the
  space, the space to its right, as wide as what is left and as high as the whole space;
  when the footprint is lower than the space, the space below it, as wide as the footprint
  and as high as what is left. Nothing else in the free list changes.
\<close>

theorem place_rectangle_split:
  assumes "0 \<le> i" and "i < int (length (spaces s))"
    and "get_dimensions r = (fw, fh)"
  shows "\<exists>s'. place_rectangle s r (x, y, sw, sh) i = Inr s'
         \<and> spaces s' =
             remove_nth (nat i) (spaces s)
               @ (if fw < sw then [(x + fw, y, sw - fw, sh)] else [])
               @ (if fh < sh then [(x, y + fh, fw, sh - fh)] else [])
         \<and> length (spaces s') + 1 \<le> length (spaces s) + 2"
  using assms
  by (auto simp: place_rectangle_def pop_def Let_def remove_nth_def)

theorem place_rectangle_split_witness:
  "(0::int) \<le> 1 \<and> (1::int) < int (length (spaces demo_sheet))
   \<and> get_dimensions (demo_piece\<lparr>rotated := True\<rparr>) = (2000, 1300)
   \<and> (\<exists>s'. place_rectangle demo_sheet (demo_piece\<lparr>rotated := True\<rparr>) (0, 1300, 2000, 1300) 1
              = Inr s'
         \<and> spaces s' = [(2000, 0, 1300, 2600)])"
proof -
  have a: "(0::int) \<le> 1" by simp
  have b: "(1::int) < int (length (spaces demo_sheet))"
    by (simp add: demo_sheet_def new_Sheet_def)
  have c: "get_dimensions (demo_piece\<lparr>rotated := True\<rparr>) = (2000, 1300)"
    by (simp add: get_dimensions_def demo_piece_def new_Rectangle_def)
  have d: "remove_nth (nat 1) (spaces demo_sheet) = [(2000, 0, 1300, 2600)]"
    by (simp add: remove_nth_def demo_sheet_def new_Sheet_def)
  from place_rectangle_split[OF a b c, of 0 1300 2000 1300] a b c d show ?thesis
    by auto
qed

section \<open>The invariant of a sheet\<close>

lemma footprints_append: "footprints (xs @ ys) = footprints xs @ footprints ys"
  by (induction xs) (auto split: option.splits)

lemma set_remove_nth:
  "distinct xs \<Longrightarrow> k < length xs \<Longrightarrow> set (remove_nth k xs) = set xs - {xs ! k}"
proof -
  assume d: "distinct xs" and k: "k < length xs"
  have xs: "xs = take k xs @ xs ! k # drop (Suc k) xs" using k by (rule id_take_nth_drop)
  from d have "distinct (take k xs @ xs ! k # drop (Suc k) xs)" using xs by simp
  then have "xs ! k \<notin> set (take k xs)" "xs ! k \<notin> set (drop (Suc k) xs)" by auto
  moreover have "set xs = set (take k xs) \<union> {xs ! k} \<union> set (drop (Suc k) xs)"
    by (subst xs) auto
  ultimately show ?thesis by (auto simp: remove_nth_def)
qed

lemma distinct_remove_nth: "distinct xs \<Longrightarrow> distinct (remove_nth k xs)"
  unfolding remove_nth_def
  by (simp add: set_take_disj_set_drop_if_distinct)

lemma sum_list_remove_nth:
  fixes f :: "'a \<Rightarrow> int"
  shows "k < length xs \<Longrightarrow> sum_list (map f (remove_nth k xs)) + f (xs ! k) = sum_list (map f xs)"
proof -
  assume k: "k < length xs"
  have "sum_list (map f xs) = sum_list (map f (take k xs @ xs ! k # drop (Suc k) xs))"
    using id_take_nth_drop[OF k] by simp
  then show ?thesis by (simp add: remove_nth_def)
qed

lemma inside_trans: "inside a b \<Longrightarrow> inside b c \<Longrightarrow> inside a c"
  by (auto simp: inside_def split: prod.splits)

lemma overlaps_inside: "overlaps a n \<Longrightarrow> inside n sp \<Longrightarrow> overlaps a sp"
  by (auto simp: inside_def overlaps_def split: prod.splits)

lemma overlaps_sym: "overlaps a b = overlaps b a"
  by (auto simp: overlaps_def split: prod.splits)

lemma positive_inside_overlaps: "positive n \<Longrightarrow> inside n sp \<Longrightarrow> overlaps n sp"
  by (auto simp: inside_def overlaps_def positive_def split: prod.splits)


lemma split_geometry:
  assumes "0 < ew" "ew \<le> sw" "0 < eh" "eh \<le> sh"
    and N: "N = (if ew < sw then [(x + ew, y, sw - ew, sh)] else [])
              @ (if eh < sh then [(x, y + eh, ew, sh - eh)] else []) @ [(x, y, ew, eh)]"
  shows "distinct N"
    and "\<forall>n\<in>set N. positive n \<and> inside n (x, y, sw, sh)"
    and "\<forall>a\<in>set N. \<forall>b\<in>set N. a \<noteq> b \<longrightarrow> \<not> overlaps a b"
    and "\<Union> (cells ` set N) = cells (x, y, sw, sh)"
    and "sum_list (map area N) = area (x, y, sw, sh)"
proof -
  show "distinct N" using assms by auto
  show "\<forall>n\<in>set N. positive n \<and> inside n (x, y, sw, sh)"
    using assms by (auto simp: positive_def inside_def)
  show "\<forall>a\<in>set N. \<forall>b\<in>set N. a \<noteq> b \<longrightarrow> \<not> overlaps a b"
    using assms by (auto simp: overlaps_def)
  show "\<Union> (cells ` set N) = cells (x, y, sw, sh)"
    using assms(1-4) unfolding N by (auto simp: cells_def)
  show "sum_list (map area N) = area (x, y, sw, sh)"
    using assms(1-4) unfolding N by (auto simp: area_def algebra_simps)
qed

lemma sheet_invI:
  assumes "Sheet.width s = width_mm stock \<and> Sheet.height s = height_mm stock"
    and "\<forall>r\<in>set (placed_rectangles s).
         position r \<noteq> None \<and> 0 < Rectangle.width r \<and> 0 < Rectangle.height r
         \<and> (rotated r \<longrightarrow> Rectangle.width r \<noteq> Rectangle.height r)"
    and "distinct (boxes s)"
    and "\<forall>a\<in>set (boxes s). positive a \<and> inside a (whole_sheet s)"
    and "\<forall>a\<in>set (boxes s). \<forall>b\<in>set (boxes s). a \<noteq> b \<longrightarrow> \<not> overlaps a b"
    and "\<Union> (cells ` set (boxes s)) = cells (whole_sheet s)"
    and "sum_list (map area (boxes s)) = area (whole_sheet s)"
  shows "sheet_inv stock s"
  using assms by (simp only: sheet_inv_def simp_thms)

lemma sheet_invD:
  assumes "sheet_inv stock s"
  shows "Sheet.width s = width_mm stock" "Sheet.height s = height_mm stock"
    and "\<forall>r\<in>set (placed_rectangles s).
         position r \<noteq> None \<and> 0 < Rectangle.width r \<and> 0 < Rectangle.height r
         \<and> (rotated r \<longrightarrow> Rectangle.width r \<noteq> Rectangle.height r)"
    and "distinct (boxes s)"
    and "\<forall>a\<in>set (boxes s). positive a \<and> inside a (whole_sheet s)"
    and "\<forall>a\<in>set (boxes s). \<forall>b\<in>set (boxes s). a \<noteq> b \<longrightarrow> \<not> overlaps a b"
    and "\<Union> (cells ` set (boxes s)) = cells (whole_sheet s)"
    and "sum_list (map area (boxes s)) = area (whole_sheet s)"
  using assms unfolding sheet_inv_def by simp_all

lemma place_preserves_inv:
  assumes inv: "sheet_inv stock s"
    and pos: "0 < Rectangle.width r" "0 < Rectangle.height r"
    and find: "find_best_space s r = (Some sp, i, rot)"
    and pl: "place_rectangle s (r\<lparr>rotated := rot\<rparr>) sp i = Inr s'"
  shows "sheet_inv stock s'"
proof (rule place_step[OF find])
  fix k x y sw sh ew eh
  assume k: "k < length (spaces s)" and spk: "sp = spaces s ! k" and sp: "sp = (x, y, sw, sh)"
    and "i = int k"
    and e: "(ew, eh) = (if rot then (Rectangle.height r, Rectangle.width r)
                 else (Rectangle.width r, Rectangle.height r))"
    and le: "ew \<le> sw" "eh \<le> sh"
    and rot: "rot \<longrightarrow> Rectangle.width r \<noteq> Rectangle.height r"
    and fp: "footprint (r\<lparr>rotated := rot, position := Some (x, y)\<rparr>) = Some (x, y, ew, eh)"
    and pr: "place_rectangle s (r\<lparr>rotated := rot\<rparr>) sp i =
       Inr (s\<lparr>placed_rectangles :=
                 placed_rectangles s @ [r\<lparr>rotated := rot, position := Some (x, y)\<rparr>],
               spaces := remove_nth k (spaces s)
                 @ (if ew < sw then [(x + ew, y, sw - ew, sh)] else [])
                 @ (if eh < sh then [(x, y + eh, ew, sh - eh)] else [])\<rparr>)"
  define RB where "RB = (if ew < sw then [(x + ew, y, sw - ew, sh)] else [])
                 @ (if eh < sh then [(x, y + eh, ew, sh - eh)] else [])"
  define N where "N = RB @ [(x, y, ew, eh)]"
  define F where "F = footprints (placed_rectangles s)"
  define A where "A = remove_nth k (spaces s)"
  from pl pr have s': "s' = s\<lparr>placed_rectangles :=
                 placed_rectangles s @ [r\<lparr>rotated := rot, position := Some (x, y)\<rparr>],
               spaces := A @ RB\<rparr>"
    by (simp add: RB_def A_def)
  have boxes': "boxes s' = A @ RB @ F @ [(x, y, ew, eh)]"
    by (simp add: s' boxes_def footprints_append fp F_def)
  have boxes: "boxes s = spaces s @ F" by (simp add: boxes_def F_def)
  have whole: "whole_sheet s' = whole_sheet s" by (simp add: s' whole_sheet_def)
  have epos: "0 < ew" "0 < eh" using e pos by (auto split: if_splits)
  have Neq: "N = (if ew < sw then [(x + ew, y, sw - ew, sh)] else [])
              @ (if eh < sh then [(x, y + eh, ew, sh - eh)] else []) @ [(x, y, ew, eh)]"
    by (simp add: N_def RB_def)
  note geo = split_geometry[OF epos(1) le(1) epos(2) le(2) Neq, folded sp]
  from inv have d: "distinct (spaces s @ F)"
    and pi: "\<forall>a\<in>set (spaces s @ F). positive a \<and> inside a (whole_sheet s)"
    and no: "\<forall>a\<in>set (spaces s @ F). \<forall>b\<in>set (spaces s @ F). a \<noteq> b \<longrightarrow> \<not> overlaps a b"
    and cov: "\<Union> (cells ` set (spaces s @ F)) = cells (whole_sheet s)"
    and ar: "sum_list (map area (spaces s @ F)) = area (whole_sheet s)"
    using sheet_invD(4-8)[OF inv] unfolding boxes by - assumption+
  have spin: "sp \<in> set (spaces s)" using k spk by simp
  have setA: "set A = set (spaces s) - {sp}"
    using d k unfolding A_def spk by (simp add: set_remove_nth)
  have dA: "distinct A" using d unfolding A_def by (simp add: distinct_remove_nth)
  have spF: "sp \<notin> set F" using d spin by auto
  define Rest where "Rest = set A \<union> set F"
  have Rest_old: "Rest = set (spaces s @ F) - {sp}" using setA spF by (auto simp: Rest_def)
  have old: "set (spaces s @ F) = insert sp Rest" using spin Rest_old by auto
  have Rest_sp: "\<forall>a\<in>Rest. \<not> overlaps a sp" using no spin unfolding Rest_old by auto
  have Rest_N: "\<not> overlaps a n \<and> \<not> overlaps n a" if "a \<in> Rest" "n \<in> set N" for a n
  proof -
    from that(2) geo(2) have "inside n sp" by blast
    moreover from that(1) Rest_sp have "\<not> overlaps a sp" by blast
    ultimately have "\<not> overlaps a n" using overlaps_inside by blast
    then show ?thesis by (simp add: overlaps_sym[of n a])
  qed
  have N_ov: "\<forall>n\<in>set N. overlaps n sp"
    using geo(2) by (auto intro: positive_inside_overlaps)
  have disj: "Rest \<inter> set N = {}"
    using Rest_sp N_ov by blast
  have set': "set (boxes s') = Rest \<union> set N"
    by (auto simp: boxes' Rest_def N_def)
  have spw: "inside sp (whole_sheet s)" using pi spin by auto
  have 1: "distinct (boxes s')"
  proof -
    have "distinct (A @ F)" using d dA setA by auto
    moreover have "distinct (RB @ [(x, y, ew, eh)])" using geo(1) by (simp add: N_def)
    moreover have "(set A \<union> set F) \<inter> (set RB \<union> {(x, y, ew, eh)}) = {}"
      using disj by (simp add: Rest_def N_def)
    ultimately show ?thesis unfolding boxes' by auto
  qed
  have 2: "\<forall>a\<in>set (boxes s'). positive a \<and> inside a (whole_sheet s')"
  proof
    fix a assume "a \<in> set (boxes s')"
    then consider "a \<in> Rest" | "a \<in> set N" unfolding set' by blast
    then show "positive a \<and> inside a (whole_sheet s')"
    proof cases
      case 1
      then have "a \<in> set (spaces s @ F)" unfolding Rest_old by blast
      with pi show ?thesis unfolding whole by blast
    next
      case 2
      with geo(2) have "positive a" "inside a sp" by blast+
      with spw show ?thesis unfolding whole using inside_trans by blast
    qed
  qed
  have 3: "\<forall>a\<in>set (boxes s'). \<forall>b\<in>set (boxes s'). a \<noteq> b \<longrightarrow> \<not> overlaps a b"
  proof (intro ballI impI)
    fix a b assume a: "a \<in> set (boxes s')" and b: "b \<in> set (boxes s')" and ne: "a \<noteq> b"
    from a consider (aR) "a \<in> Rest" | (aN) "a \<in> set N" unfolding set' by blast
    then show "\<not> overlaps a b"
    proof cases
      case aR
      from b consider (bR) "b \<in> Rest" | (bN) "b \<in> set N" unfolding set' by blast
      then show ?thesis
      proof cases
        case bR
        with aR have "a \<in> set (spaces s @ F)" "b \<in> set (spaces s @ F)"
          unfolding Rest_old by blast+
        with no ne show ?thesis by blast
      next
        case bN
        with aR Rest_N show ?thesis by blast
      qed
    next
      case aN
      from b consider (bR) "b \<in> Rest" | (bN) "b \<in> set N" unfolding set' by blast
      then show ?thesis
      proof cases
        case bR
        with aN Rest_N show ?thesis by blast
      next
        case bN
        with aN geo(3) ne show ?thesis by blast
      qed
    qed
  qed
  have 4: "\<Union> (cells ` set (boxes s')) = cells (whole_sheet s')"
  proof -
    have "\<Union> (cells ` set (boxes s')) = \<Union> (cells ` Rest) \<union> cells sp"
      unfolding set' using geo(4) by auto
    also have "\<dots> = \<Union> (cells ` set (spaces s @ F))" unfolding old by auto
    finally show ?thesis using cov whole by simp
  qed
  have 5: "sum_list (map area (boxes s')) = area (whole_sheet s')"
  proof -
    have "sum_list (map area (boxes s')) = sum_list (map area A) + sum_list (map area F) + sum_list (map area N)"
      by (simp add: boxes' N_def)
    also have "\<dots> = sum_list (map area A) + area sp + sum_list (map area F)"
      using geo(5) by simp
    also have "\<dots> = sum_list (map area (spaces s @ F))"
      using sum_list_remove_nth[OF k, of area] by (simp add: A_def spk)
    finally show ?thesis using ar whole by simp
  qed
  have 6: "Sheet.width s' = width_mm stock \<and> Sheet.height s' = height_mm stock"
    using sheet_invD(1,2)[OF inv] by (simp add: s')
  have 7: "\<forall>r\<in>set (placed_rectangles s').
         position r \<noteq> None \<and> 0 < Rectangle.width r \<and> 0 < Rectangle.height r
         \<and> (rotated r \<longrightarrow> Rectangle.width r \<noteq> Rectangle.height r)"
    using sheet_invD(3)[OF inv] pos rot by (simp add: s')
  from 6 7 1 2 3 4 5 show "sheet_inv stock s'" by (rule sheet_invI)
qed

lemma new_Sheet_inv:
  assumes "0 < width_mm stock" "0 < height_mm stock"
  shows "sheet_inv stock (new_Sheet stock)"
  using assms
  by (simp add: sheet_inv_def new_Sheet_def boxes_def whole_sheet_def positive_def inside_def)

lemma reachable_inv:
  assumes "0 < width_mm stock" "0 < height_mm stock" "reachable stock s"
  shows "sheet_inv stock s"
  using assms(3)
proof (induction rule: reachable.induct)
  case fresh
  show ?case using assms(1,2) by (rule new_Sheet_inv)
next
  case (place s r sp i rot s')
  then show ?case by (intro place_preserves_inv[of stock s r sp i rot s']) auto
qed

section \<open>The packing loops\<close>

lemma fits_fittable:
  assumes "sheet_inv stock s" "sp \<in> set (spaces s)" "fits r sp"
  shows "fittable stock r"
proof -
  obtain x y sw sh where sp: "sp = (x, y, sw, sh)" by (cases sp) auto
  from assms(2) have "sp \<in> set (boxes s)" by (simp add: boxes_def)
  with sheet_invD(5)[OF assms(1)] have "inside sp (whole_sheet s)" by blast
  then have "sw \<le> width_mm stock" "sh \<le> height_mm stock"
    using sheet_invD(1,2)[OF assms(1)] by (auto simp: sp inside_def whole_sheet_def)
  with assms(3) show ?thesis
    by (auto simp: sp fits_def fits_unrotated_def fits_rotated_def fittable_def)
qed


lemma set_remove_nth_subset: "set (remove_nth i xs) \<subseteq> set xs"
  unfolding remove_nth_def using set_take_subset[of i xs] set_drop_subset[of "Suc i" xs]
  by auto

lemma set_remove_nth_insert: "i < length xs \<Longrightarrow> set xs = insert (xs ! i) (set (remove_nth i xs))"
proof -
  assume i: "i < length xs"
  have "set xs = set (take i xs @ xs ! i # drop (Suc i) xs)"
    using id_take_nth_drop[OF i] by simp
  then show ?thesis by (auto simp: remove_nth_def)
qed

lemma length_remove_nth: "i < length xs \<Longrightarrow> Suc (length (remove_nth i xs)) = length xs"
  by (auto simp: remove_nth_def)

lemma pass_post_refl: "reachable stock s \<Longrightarrow> pass_post stock s u s u"
  by (simp add: pass_post_def)

lemma pass_post_trans:
  "pass_post stock s u s1 u1 \<Longrightarrow> pass_post stock s1 u1 s2 u2 \<Longrightarrow> pass_post stock s u s2 u2"
  unfolding pass_post_def by (intro conjI) (auto dest: subsetD)

lemma pass_loop_stop: "\<not> i < length u \<Longrightarrow> pass_loop s u i b = Inr (s, u, b)"
  by (simp add: pass_loop.simps[of s u i b])

lemma pass_loop_skip:
  "i < length u \<Longrightarrow> find_best_space s (u ! i) = (None, si, rot) \<Longrightarrow>
   pass_loop s u i b = pass_loop s u (i + 1) b"
  by (simp add: pass_loop.simps[of s u i b])

lemma pass_loop_place:
  "i < length u \<Longrightarrow> find_best_space s (u ! i) = (Some sp, si, rot) \<Longrightarrow>
   place_rectangle s ((u ! i)\<lparr>rotated := rot\<rparr>) sp si = Inr s1 \<Longrightarrow>
   pass_loop s u i b = pass_loop s1 (remove_nth i u) i True"
  by (simp add: pass_loop.simps[of s u i b])

lemma place_ok:
  assumes "find_best_space s r = (Some sp, i, rot)"
  shows "\<exists>s'. place_rectangle s (r\<lparr>rotated := rot\<rparr>) sp i = Inr s'
           \<and> length (placed_rectangles s') = Suc (length (placed_rectangles s))"
proof (rule place_step[OF assms])
  fix k x y sw sh ew eh
  assume "place_rectangle s (r\<lparr>rotated := rot\<rparr>) sp i =
       Inr (s\<lparr>placed_rectangles :=
                 placed_rectangles s @ [r\<lparr>rotated := rot, position := Some (x, y)\<rparr>],
               spaces := remove_nth k (spaces s)
                 @ (if ew < sw then [(x + ew, y, sw - ew, sh)] else [])
                 @ (if eh < sh then [(x, y + eh, ew, sh - eh)] else [])\<rparr>)"
  then show ?thesis by simp
qed

text \<open>One placement inside a pass.\<close>

lemma place_post:
  assumes stock: "0 < width_mm stock" "0 < height_mm stock"
    and reach: "reachable stock s"
    and i: "i < length u"
    and pos: "0 < Rectangle.width (u ! i)" "0 < Rectangle.height (u ! i)"
    and f: "find_best_space s (u ! i) = (Some sp, si, rot)"
    and p: "place_rectangle s ((u ! i)\<lparr>rotated := rot\<rparr>) sp si = Inr s1"
  shows "pass_post stock s u s1 (remove_nth i u)"
proof -
  have reach1: "reachable stock s1"
    using reachable.place[OF reach pos f p] .
  from place_ok[OF f] p
  have placed1: "length (placed_rectangles s1) = Suc (length (placed_rectangles s))" by auto
  have len: "Suc (length (remove_nth i u)) = length u" using i by (rule length_remove_nth)
  have fitsp: "fittable stock (u ! i)"
  proof -
    from find_best_space_Some[OF f] obtain k where
      "k < length (spaces s)" "sp = spaces s ! k" "fits (u ! i) sp" by blast
    then have "sp \<in> set (spaces s)" by simp
    with \<open>fits (u ! i) sp\<close> show ?thesis
      using fits_fittable[OF reachable_inv[OF stock reach]] by blast
  qed
  have unf: "\<forall>r\<in>set u. \<not> fittable stock r \<longrightarrow> r \<in> set (remove_nth i u)"
  proof (intro ballI impI)
    fix r assume "r \<in> set u" "\<not> fittable stock r"
    with fitsp have "r \<noteq> u ! i" by blast
    with \<open>r \<in> set u\<close> set_remove_nth_insert[OF i] show "r \<in> set (remove_nth i u)"
      by blast
  qed
  show ?thesis
    unfolding pass_post_def
    using reach1 placed1 len unf set_remove_nth_subset[of i u] by simp
qed

lemma pass_loop_props:
  assumes stock: "0 < width_mm stock" "0 < height_mm stock"
  shows "reachable stock s \<Longrightarrow> \<forall>r\<in>set u. 0 < Rectangle.width r \<and> 0 < Rectangle.height r \<Longrightarrow>
    \<exists>s' u' b'. pass_loop s u i b = Inr (s', u', b') \<and> pass_post stock s u s' u'
      \<and> (b' \<longleftrightarrow> b \<or> length u' < length u)
      \<and> (i < length u \<and> (\<exists>sp\<in>set (spaces s). fits (u ! i) sp) \<longrightarrow> length u' < length u)"
proof (induction s u i b rule: pass_loop.induct)
  case (1 s u i b)
  note reach = "1.prems"(1) and valid = "1.prems"(2)
  show ?case
  proof (cases "i < length u")
    case False
    with reach show ?thesis by (simp add: pass_loop_stop pass_post_refl)
  next
    case True
    obtain bs si rot where f: "find_best_space s (u ! i) = (bs, si, rot)"
      by (cases "find_best_space s (u ! i)") auto
    show ?thesis
    proof (cases bs)
      case None
      note f' = f[unfolded None]
      have eq: "pass_loop s u i b = pass_loop s u (i + 1) b"
        using True f' by (rule pass_loop_skip)
      from find_best_space_None[OF f']
      have nofit: "\<not> (\<exists>sp\<in>set (spaces s). fits (u ! i) sp)" by blast
      have "\<exists>s' u' b'. pass_loop s u (i + 1) b = Inr (s', u', b') \<and> pass_post stock s u s' u'
          \<and> (b' \<longleftrightarrow> b \<or> length u' < length u)
          \<and> (i + 1 < length u \<and> (\<exists>sp\<in>set (spaces s). fits (u ! (i + 1)) sp)
               \<longrightarrow> length u' < length u)"
        using None by (intro "1.IH"(1)[OF True refl f[symmetric] _ _ reach valid]) simp_all
      then obtain s' u' b' where
        r: "pass_loop s u (i + 1) b = Inr (s', u', b')" "pass_post stock s u s' u'"
          "b' \<longleftrightarrow> b \<or> length u' < length u"
        by blast
      have "pass_loop s u i b = Inr (s', u', b') \<and> pass_post stock s u s' u'
          \<and> (b' \<longleftrightarrow> b \<or> length u' < length u)
          \<and> (i < length u \<and> (\<exists>sp\<in>set (spaces s). fits (u ! i) sp) \<longrightarrow> length u' < length u)"
        using eq r nofit by simp
      then show ?thesis by blast
    next
      case (Some sp)
      note f' = f[unfolded Some]
      have pos: "0 < Rectangle.width (u ! i)" "0 < Rectangle.height (u ! i)"
        using valid True by auto
      from place_ok[OF f'] obtain s1 where
        p: "place_rectangle s ((u ! i)\<lparr>rotated := rot\<rparr>) sp si = Inr s1"
        by blast
      have post1: "pass_post stock s u s1 (remove_nth i u)"
        using stock reach True pos f' p by (rule place_post)
      then have reach1: "reachable stock s1" by (simp add: pass_post_def)
      have eq: "pass_loop s u i b = pass_loop s1 (remove_nth i u) i True"
        using True f' p by (rule pass_loop_place)
      have valid1: "\<forall>r\<in>set (remove_nth i u). 0 < Rectangle.width r \<and> 0 < Rectangle.height r"
        using valid set_remove_nth_subset[of i u] by blast
      have len: "Suc (length (remove_nth i u)) = length u" using True by (rule length_remove_nth)
      have "\<exists>s' u' b'. pass_loop s1 (remove_nth i u) i True = Inr (s', u', b')
          \<and> pass_post stock s1 (remove_nth i u) s' u'
          \<and> (b' \<longleftrightarrow> True \<or> length u' < length (remove_nth i u))
          \<and> (i < length (remove_nth i u)
               \<and> (\<exists>sp\<in>set (spaces s1). fits (remove_nth i u ! i) sp)
               \<longrightarrow> length u' < length (remove_nth i u))"
        using Some by (intro "1.IH"(2)[OF True refl f[symmetric] _ _ p reach1 valid1]) simp_all
      then obtain s' u' b' where
        r: "pass_loop s1 (remove_nth i u) i True = Inr (s', u', b')"
          "pass_post stock s1 (remove_nth i u) s' u'" "b'"
        by blast
      have post: "pass_post stock s u s' u'" using post1 r(2) by (rule pass_post_trans)
      have "length u' \<le> length (remove_nth i u)" using r(2) by (simp add: pass_post_def)
      with len have less: "length u' < length u" by simp
      have "pass_loop s u i b = Inr (s', u', b') \<and> pass_post stock s u s' u'
          \<and> (b' \<longleftrightarrow> b \<or> length u' < length u)
          \<and> (i < length u \<and> (\<exists>sp\<in>set (spaces s). fits (u ! i) sp) \<longrightarrow> length u' < length u)"
        using eq r(1,3) post less by simp
      then show ?thesis by blast
    qed
  qed
qed

lemma sheet_loop_props:
  assumes stock: "0 < width_mm stock" "0 < height_mm stock"
  shows "reachable stock s \<Longrightarrow> \<forall>r\<in>set u. 0 < Rectangle.width r \<and> 0 < Rectangle.height r \<Longrightarrow>
    \<exists>s' u'. sheet_loop s u = Inr (s', u') \<and> pass_post stock s u s' u'
      \<and> (0 < length u \<and> (\<exists>sp\<in>set (spaces s). fits (u ! 0) sp) \<longrightarrow> length u' < length u)"
proof (induction s u rule: sheet_loop.induct)
  case (1 s u)
  note reach = "1.prems"(1) and valid = "1.prems"(2)
  from pass_loop_props[OF stock reach valid, of 0 False] obtain s1 u1 b1 where
    p: "pass_loop s u 0 False = Inr (s1, u1, b1)" and post1: "pass_post stock s u s1 u1"
    and b1: "b1 \<longleftrightarrow> False \<or> length u1 < length u"
    and first: "0 < length u \<and> (\<exists>sp\<in>set (spaces s). fits (u ! 0) sp) \<longrightarrow> length u1 < length u"
    by blast
  show ?case
  proof (cases b1)
    case False
    have "sheet_loop s u = Inr (s1, u1)"
      using p False by (simp add: sheet_loop.simps[of s u])
    with post1 first show ?thesis by blast
  next
    case True
    have eq: "sheet_loop s u = sheet_loop s1 u1"
      using p True by (simp add: sheet_loop.simps[of s u])
    have reach1: "reachable stock s1" using post1 by (simp add: pass_post_def)
    have valid1: "\<forall>r\<in>set u1. 0 < Rectangle.width r \<and> 0 < Rectangle.height r"
      using post1 valid unfolding pass_post_def by blast
    from "1.IH"[OF p refl refl True reach1 valid1] obtain s' u' where
      r: "sheet_loop s1 u1 = Inr (s', u')" "pass_post stock s1 u1 s' u'"
      by blast
    have post: "pass_post stock s u s' u'" using post1 r(2) by (rule pass_post_trans)
    have "length u' \<le> length u1" using r(2) by (simp add: pass_post_def)
    moreover have "length u1 < length u" using b1 True by simp
    ultimately have "length u' < length u" by simp
    with eq r(1) post show ?thesis by simp
  qed
qed

text \<open>Whenever the outer loop returns, it returns sheets, every piece of the pool fitted
  the stock sheet, and every piece was placed once.\<close>

lemma outer_loop_returns:
  assumes "outer_loop stock sheets u = Some res"
    and "0 < width_mm stock" "0 < height_mm stock"
    and "\<forall>r\<in>set u. 0 < Rectangle.width r \<and> 0 < Rectangle.height r"
  shows "(\<forall>r\<in>set u. fittable stock r)
       \<and> (\<exists>ss. res = Inr (sheets @ ss) \<and> (\<forall>s\<in>set ss. reachable stock s)
              \<and> sum_list (map (\<lambda>s. length (placed_rectangles s)) ss) = length u)"
  using assms
proof (induction stock sheets u res rule: outer_loop.raw_induct[rotated 1, consumes 1, case_names step])
  case (step loop stock sheets u res)
  note stock = step.prems(1,2) and valid = step.prems(3)
  show ?case
  proof (cases "u = []")
    case True
    with step.hyps(1) have "res = Inr sheets" by simp
    with True show ?thesis by simp
  next
    case False
    from sheet_loop_props[OF stock reachable.fresh valid] obtain cur u' where
      sl: "sheet_loop (new_Sheet stock) u = Inr (cur, u')"
      and post: "pass_post stock (new_Sheet stock) u cur u'"
      by blast
    from step.hyps(1) False sl have run: "loop stock (sheets @ [cur]) u' = Some res" by simp
    have valid': "\<forall>r\<in>set u'. 0 < Rectangle.width r \<and> 0 < Rectangle.height r"
      using post valid unfolding pass_post_def by blast
    from step.IH[OF run stock valid'] obtain ss where
      fit': "\<forall>r\<in>set u'. fittable stock r" and res: "res = Inr ((sheets @ [cur]) @ ss)"
      and reach: "\<forall>s\<in>set ss. reachable stock s"
      and count: "sum_list (map (\<lambda>s. length (placed_rectangles s)) ss) = length u'"
      by blast
    have fit: "\<forall>r\<in>set u. fittable stock r"
      using post fit' unfolding pass_post_def by blast
    have cur: "reachable stock cur"
      and n: "length (placed_rectangles cur) + length u' = length u"
      using post by (simp_all add: pass_post_def new_Sheet_def)
    have "res = Inr (sheets @ (cur # ss)) \<and> (\<forall>s\<in>set (cur # ss). reachable stock s)
        \<and> sum_list (map (\<lambda>s. length (placed_rectangles s)) (cur # ss)) = length u"
      using res reach cur n count by simp
    with fit show ?thesis by blast
  qed
qed


lemma outer_loop_diverges:
  assumes "0 < width_mm stock" "0 < height_mm stock"
    and "\<forall>r\<in>set u. 0 < Rectangle.width r \<and> 0 < Rectangle.height r"
    and "r \<in> set u" "\<not> fittable stock r"
  shows "outer_loop stock sheets u = None"
proof (cases "outer_loop stock sheets u")
  case None
  then show ?thesis .
next
  case (Some res)
  from outer_loop_returns[OF Some assms(1-3)] assms(4,5) show ?thesis by blast
qed

section \<open>The optimizer\<close>

lemma demo_run:
  "optimize_cutting GlassInventory ''CL6'' demo_demand = Some (Inr demo_result)"
  by (simp add: optimize_cutting_def get_stock_sheet_def GlassInventory_def demo_demand_def
      demo_result_def CL6_def make_rectangles_def sort_by_area_def new_Rectangle_def
      new_Sheet_def outer_loop.simps sheet_loop.simps pass_loop.simps find_best_space_def
      try_space_def can_rotate_def waste_less_def place_rectangle_def get_dimensions_def
      pop_def remove_nth_def Let_def)

lemma set_make_rectangles:
  "r \<in> set (make_rectangles pieces t) \<Longrightarrow>
     \<exists>w h q. (w, h, q) \<in> set pieces \<and> r = new_Rectangle w h 1 (Some t)"
  by (auto simp: make_rectangles_def)

lemma in_make_rectangles:
  "(w, h, q) \<in> set pieces \<Longrightarrow> 0 < q \<Longrightarrow>
     new_Rectangle w h 1 (Some t) \<in> set (make_rectangles pieces t)"
  by (force simp: make_rectangles_def)

lemma length_make_rectangles:
  "\<forall>p\<in>set pieces. valid_piece p \<Longrightarrow>
     int (length (make_rectangles pieces t)) = total_quantity pieces"
  by (induction pieces) (auto simp: make_rectangles_def total_quantity_def valid_piece_def)

lemma set_sort_by_area: "set (sort_by_area rs) = set rs"
  by (simp add: sort_by_area_def)

lemma length_sort_by_area: "length (sort_by_area rs) = length rs"
  by (simp add: sort_by_area_def)

lemma pool_valid:
  assumes "\<forall>p\<in>set pieces. valid_piece p"
  shows "\<forall>r\<in>set (sort_by_area (make_rectangles pieces t)).
           0 < Rectangle.width r \<and> 0 < Rectangle.height r"
proof
  fix r assume "r \<in> set (sort_by_area (make_rectangles pieces t))"
  then have "r \<in> set (make_rectangles pieces t)" by (simp add: set_sort_by_area)
  from set_make_rectangles[OF this] obtain w h q where
    "(w, h, q) \<in> set pieces" "r = new_Rectangle w h 1 (Some t)" by blast
  with assms show "0 < Rectangle.width r \<and> 0 < Rectangle.height r"
    by (force simp: valid_piece_def new_Rectangle_def)
qed


lemma pool_unfittable:
  assumes "\<forall>p\<in>set pieces. valid_piece p" "p \<in> set pieces" "\<not> piece_fits stock p"
  shows "\<exists>r\<in>set (sort_by_area (make_rectangles pieces t)). \<not> fittable stock r"
proof -
  obtain w h q where p: "p = (w, h, q)" by (cases p) auto
  with assms have "0 < q" by (force simp: valid_piece_def)
  with assms(2) p have "new_Rectangle w h 1 (Some t) \<in> set (sort_by_area (make_rectangles pieces t))"
    by (simp add: set_sort_by_area in_make_rectangles)
  moreover have "\<not> fittable stock (new_Rectangle w h 1 (Some t))"
    using assms(3) p by (simp add: piece_fits_def fittable_def new_Rectangle_def)
  ultimately show ?thesis by blast
qed

lemma optimize_cutting_stock:
  "get_stock_sheet inventory code = Inr stock \<Longrightarrow>
   optimize_cutting inventory code pieces =
     outer_loop stock [] (sort_by_area (make_rectangles pieces (StockSheet.thickness_mm stock)))"
  by (simp add: optimize_cutting_def)

text \<open>Whenever the optimizer returns for a well-formed demand, it returns sheets that the
  packing loop can reach, every piece fitted the stock sheet, and the pieces on the sheets
  are as many as were asked for.\<close>

lemma optimize_cutting_returns:
  assumes "get_stock_sheet inventory code = Inr stock"
    and "0 < width_mm stock" "0 < height_mm stock"
    and "\<forall>p\<in>set pieces. valid_piece p"
    and "optimize_cutting inventory code pieces = Some res"
  shows "\<exists>sheets. res = Inr sheets \<and> (\<forall>s\<in>set sheets. reachable stock s)
           \<and> int (total_placed sheets) = total_quantity pieces"
proof -
  let ?pool = "sort_by_area (make_rectangles pieces (StockSheet.thickness_mm stock))"
  from assms(5) have run: "outer_loop stock [] ?pool = Some res"
    by (simp add: optimize_cutting_stock[OF assms(1)])
  from outer_loop_returns[OF run assms(2,3) pool_valid[OF assms(4)]] obtain ss where
    "res = Inr ([] @ ss)" "\<forall>s\<in>set ss. reachable stock s"
    "sum_list (map (\<lambda>s. length (placed_rectangles s)) ss) = length ?pool"
    by blast
  then have "res = Inr ss \<and> (\<forall>s\<in>set ss. reachable stock s)
      \<and> int (total_placed ss) = total_quantity pieces"
    using length_make_rectangles[OF assms(4)]
    by (simp add: total_placed_def length_sort_by_area)
  then show ?thesis by blast
qed


lemma optimize_cutting_diverges:
  assumes "get_stock_sheet inventory code = Inr stock"
    and "0 < width_mm stock" "0 < height_mm stock"
    and "\<forall>p\<in>set pieces. valid_piece p"
    and "p \<in> set pieces" "\<not> piece_fits stock p"
  shows "optimize_cutting inventory code pieces = None"
proof -
  let ?pool = "sort_by_area (make_rectangles pieces (StockSheet.thickness_mm stock))"
  from pool_unfittable[OF assms(4,5,6)] obtain r where
    "r \<in> set ?pool" "\<not> fittable stock r" by blast
  from outer_loop_diverges[OF assms(2,3) pool_valid[OF assms(4)] this]
  show ?thesis by (simp add: optimize_cutting_stock[OF assms(1)])
qed

lemma CL6_stock: "get_stock_sheet GlassInventory ''CL6'' = Inr CL6"
  by (simp add: get_stock_sheet_def GlassInventory_def CL6_def)







section \<open>Claims about the optimizer\<close>

lemma CL6_positive: "0 < width_mm CL6 \<and> 0 < height_mm CL6"
  by (simp add: CL6_def)

lemma demo_demand_valid_list: "list_all valid_piece demo_demand"
  by (simp add: demo_demand_def valid_piece_def)


lemma demo_demand_valid: "\<forall>p\<in>set demo_demand. valid_piece p"
  by (simp add: demo_demand_def valid_piece_def)



text \<open>
  C1. A demand with a piece that fits the stock sheet in neither orientation: the
  optimizer has no check of the pieces against the sheet and no error of that kind. For
  the catalogue sheet of 3300 by 2600 and the single piece of 4000 by 100 it never returns:
  each turn of its outer loop opens a sheet on which the piece cannot be placed.
\<close>

theorem unfittable_piece_never_returns:
  "optimize_cutting GlassInventory ''CL6'' [(4000, 100, 1)] = None"
proof -
  have "\<forall>p\<in>set [(4000, 100, 1)]. valid_piece p" by (simp add: valid_piece_def)
  moreover have "(4000, 100, 1) \<in> set [(4000, 100, 1)]" by simp
  moreover have "\<not> piece_fits CL6 (4000, 100, 1)" by (simp add: piece_fits_def CL6_def)
  ultimately show ?thesis
    using optimize_cutting_diverges[OF CL6_stock] CL6_positive by blast
qed







text \<open>
  C8. For a well-formed demand on a stock sheet of positive dimensions, a piece placed on
  a returned sheet whose width equals its height has its rotation flag unset.
\<close>

theorem square_pieces_are_not_rotated:
  assumes "get_stock_sheet inventory code = Inr stock"
    and "0 < width_mm stock" "0 < height_mm stock"
    and "\<forall>p\<in>set pieces. valid_piece p"
    and "optimize_cutting inventory code pieces = Some (Inr sheets)"
  shows "\<forall>s\<in>set sheets. \<forall>r\<in>set (placed_rectangles s).
           Rectangle.width r = Rectangle.height r \<longrightarrow> \<not> rotated r"
proof -
  from optimize_cutting_returns[OF assms] have "\<forall>s\<in>set sheets. reachable stock s" by simp
  then have "\<forall>s\<in>set sheets. sheet_inv stock s"
    using reachable_inv[OF assms(2,3)] by blast
  then show ?thesis using sheet_invD(3) by blast
qed

theorem square_pieces_are_not_rotated_witness:
  "get_stock_sheet GlassInventory ''CL6'' = Inr CL6
   \<and> 0 < width_mm CL6 \<and> 0 < height_mm CL6
   \<and> list_all valid_piece demo_demand
   \<and> optimize_cutting GlassInventory ''CL6'' demo_demand = Some (Inr demo_result)
   \<and> Rectangle.width (placed_rectangles (demo_result ! 1) ! 0)
       = Rectangle.height (placed_rectangles (demo_result ! 1) ! 0)
   \<and> \<not> rotated (placed_rectangles (demo_result ! 1) ! 0)"
proof -
  have s1: "demo_result ! 1 \<in> set demo_result" by (simp add: demo_result_def)
  have r10: "placed_rectangles (demo_result ! 1) ! 0 \<in> set (placed_rectangles (demo_result ! 1))"
    by (simp add: demo_result_def)
  have sq: "Rectangle.width (placed_rectangles (demo_result ! 1) ! 0)
       = Rectangle.height (placed_rectangles (demo_result ! 1) ! 0)"
    by (simp add: demo_result_def)
  from square_pieces_are_not_rotated[OF CL6_stock _ _ demo_demand_valid demo_run]
    CL6_positive s1 r10 sq
  have "\<not> rotated (placed_rectangles (demo_result ! 1) ! 0)" by blast
  with sq CL6_stock CL6_positive demo_demand_valid_list demo_run show ?thesis by blast
qed



section \<open>The efficiency of a sheet\<close>













end
